theory Spec2Isabelle
  imports Complex_Main "HOL-Library.Word" "HOL-Library.Multiset" "HOL-Library.Log_Nat"
begin

unbundle bit_operations_syntax

section \<open>JavaScript values\<close>

subsection \<open>Strings\<close>

text \<open>
  A JavaScript string is a sequence of 16-bit code units.  \<open>js\<close> embeds a literal.
  \<open>is_ws\<close> is the white space of \<^verbatim>\<open>String.prototype.trim\<close>, of the regular
  expression class \<^verbatim>\<open>\s\<close> and of the string-to-number conversion (WhiteSpace and
  LineTerminator of ECMAScript).
\<close>

type_synonym jsstring = "16 word list"

definition js :: "string \<Rightarrow> jsstring" where
  "js s = map of_char s"

definition is_ws :: "16 word \<Rightarrow> bool" where
  "is_ws c \<longleftrightarrow>
     c = 0x9 \<or> c = 0xA \<or> c = 0xB \<or> c = 0xC \<or> c = 0xD \<or> c = 0x20 \<or> c = 0xA0
     \<or> c = 0x1680 \<or> (0x2000 \<le> c \<and> c \<le> 0x200A) \<or> c = 0x2028 \<or> c = 0x2029
     \<or> c = 0x202F \<or> c = 0x205F \<or> c = 0x3000 \<or> c = 0xFEFF"

definition trim :: "jsstring \<Rightarrow> jsstring" where
  "trim s = rev (dropWhile is_ws (rev (dropWhile is_ws s)))"

text \<open>
  \<^verbatim>\<open>s.split(/\s+/)\<close>: the pieces between the maximal runs of white space; a run at
  the start or at the end leaves an empty piece there, and the empty string gives one
  empty piece.
\<close>

function split_ws :: "jsstring \<Rightarrow> jsstring list" where
  "split_ws s =
     (if dropWhile (\<lambda>c. \<not> is_ws c) s = [] then [takeWhile (\<lambda>c. \<not> is_ws c) s]
      else takeWhile (\<lambda>c. \<not> is_ws c) s
             # split_ws (dropWhile is_ws (dropWhile (\<lambda>c. \<not> is_ws c) s)))"
  by pat_completeness auto
termination
proof (relation "measure length")
  fix s :: jsstring
  assume ne: "dropWhile (\<lambda>c. \<not> is_ws c) s \<noteq> []"
  then have "is_ws (hd (dropWhile (\<lambda>c. \<not> is_ws c) s))"
    using hd_dropWhile [of "\<lambda>c. \<not> is_ws c" s] by simp
  with ne have "length (dropWhile is_ws (dropWhile (\<lambda>c. \<not> is_ws c) s))
                  < length (dropWhile (\<lambda>c. \<not> is_ws c) s)"
    by (cases "dropWhile (\<lambda>c. \<not> is_ws c) s") (simp_all add: le_imp_less_Suc length_dropWhile_le)
  also have "\<dots> \<le> length s"
    by (rule length_dropWhile_le)
  finally show "(dropWhile is_ws (dropWhile (\<lambda>c. \<not> is_ws c) s), s) \<in> measure length"
    by simp
qed simp

declare split_ws.simps [simp del]

subsection \<open>Numbers\<close>

text \<open>
  A finite JavaScript number is an IEEE 754 binary64 value, here the rational it denotes
  (the two zeros are one value).  \<open>fl64\<close> rounds a rational to the nearest binary64
  value, ties to even: 53 significant bits above \<open>2^-1022\<close>, multiples of \<open>2^-1074\<close>
  below.  Every arithmetic operation is the exact operation followed by \<open>fl64\<close>.  The
  exponent has no upper bound in \<open>fl64\<close>; \<open>to_number\<close> turns a magnitude of \<open>2^1024\<close>
  or more into an infinity where the program can meet one (string conversion).  The
  divisions of this program never divide by zero.
\<close>

definition rne :: "rat \<Rightarrow> int" where
  "rne x = (let f = \<lfloor>x\<rfloor>; r = x - of_int f
            in if r < 1 / 2 then f
               else if 1 / 2 < r then f + 1
               else if even f then f else f + 1)"

definition ilog2 :: "rat \<Rightarrow> int" where
  "ilog2 x = (let (a, b) = quotient_of x; k = bitlen a - bitlen b
              in if 2 powi k \<le> x then k else k - 1)"

definition quantum :: "rat \<Rightarrow> rat" where
  "quantum x = 2 powi (max (ilog2 \<bar>x\<bar>) (- 1022) - 52)"

definition fl64 :: "rat \<Rightarrow> rat" where
  "fl64 x = (if x = 0 then 0 else of_int (rne (x / quantum x)) * quantum x)"

definition js_add :: "rat \<Rightarrow> rat \<Rightarrow> rat" where
  "js_add a b = fl64 (a + b)"

definition js_mul :: "rat \<Rightarrow> rat \<Rightarrow> rat" where
  "js_mul a b = fl64 (a * b)"

definition js_div :: "rat \<Rightarrow> rat \<Rightarrow> rat" where
  "js_div a b = fl64 (a / b)"

definition Math_floor :: "rat \<Rightarrow> int" where
  "Math_floor x = \<lfloor>x\<rfloor>"

definition Math_round :: "rat \<Rightarrow> int" where
  "Math_round x = \<lfloor>x + 1 / 2\<rfloor>"

definition Math_pow :: "rat \<Rightarrow> int \<Rightarrow> rat" where
  "Math_pow b n = fl64 (b powi n)"

datatype jsnumber = NaN | PosInfinity | NegInfinity | Finite rat

definition to_number :: "rat \<Rightarrow> jsnumber" where
  "to_number x =
     (let r = fl64 x
      in if 2 ^ 1024 \<le> r then PosInfinity
         else if r \<le> - (2 ^ 1024) then NegInfinity
         else Finite r)"

definition isNaN :: "jsnumber \<Rightarrow> bool" where
  "isNaN n \<longleftrightarrow> n = NaN"

subsection \<open>Number(string)\<close>

text \<open>
  The conversion \<^verbatim>\<open>Number(p)\<close> of a string (StringToNumber of ECMAScript): white
  space is trimmed; the empty string is 0; otherwise the whole text must be a
  StrNumericLiteral (a signed decimal literal with optional fraction and exponent,
  \<^verbatim>\<open>Infinity\<close> with optional sign, or an unsigned binary, octal or hexadecimal
  integer with prefix \<^verbatim>\<open>0b\<close>, \<^verbatim>\<open>0o\<close>, \<^verbatim>\<open>0x\<close>), and anything else is NaN.
\<close>

definition digit_value :: "16 word \<Rightarrow> nat" where
  "digit_value c =
     (if 0x30 \<le> c \<and> c \<le> 0x39 then unat c - 0x30
      else if 0x61 \<le> c \<and> c \<le> 0x66 then unat c - 0x61 + 10
      else if 0x41 \<le> c \<and> c \<le> 0x46 then unat c - 0x41 + 10
      else 16)"

definition is_digits :: "nat \<Rightarrow> jsstring \<Rightarrow> bool" where
  "is_digits base s \<longleftrightarrow> s \<noteq> [] \<and> list_all (\<lambda>c. digit_value c < base) s"

definition digits_value :: "nat \<Rightarrow> jsstring \<Rightarrow> nat" where
  "digits_value base s = foldl (\<lambda>v c. v * base + digit_value c) 0 s"

definition exponent_part :: "jsstring \<Rightarrow> int option" where
  "exponent_part s =
     (case s of
        [] \<Rightarrow> Some 0
      | c # r \<Rightarrow>
          if c = 0x65 \<or> c = 0x45 then
            (case r of
               [] \<Rightarrow> None
             | d # ds \<Rightarrow>
                 if d = 0x2B then
                   (if is_digits 10 ds then Some (int (digits_value 10 ds)) else None)
                 else if d = 0x2D then
                   (if is_digits 10 ds then Some (- int (digits_value 10 ds)) else None)
                 else if is_digits 10 r then Some (int (digits_value 10 r))
                 else None)
          else None)"

definition unsigned_decimal :: "jsstring \<Rightarrow> rat option" where
  "unsigned_decimal s =
     (let ip = takeWhile (\<lambda>c. digit_value c < 10) s;
          r1 = dropWhile (\<lambda>c. digit_value c < 10) s;
          hasdot = (case r1 of [] \<Rightarrow> False | c # _ \<Rightarrow> c = 0x2E);
          fp = (if hasdot then takeWhile (\<lambda>c. digit_value c < 10) (drop 1 r1) else []);
          r2 = (if hasdot then dropWhile (\<lambda>c. digit_value c < 10) (drop 1 r1) else r1)
      in if ip = [] \<and> fp = [] then None
         else (case exponent_part r2 of
                 None \<Rightarrow> None
               | Some e \<Rightarrow>
                   Some (of_nat (digits_value 10 (ip @ fp)) * 10 powi (e - int (length fp)))))"

definition unsigned_literal :: "jsstring \<Rightarrow> jsnumber" where
  "unsigned_literal s =
     (if s = js ''Infinity'' then PosInfinity
      else (case unsigned_decimal s of None \<Rightarrow> NaN | Some x \<Rightarrow> to_number x))"

definition negate :: "jsnumber \<Rightarrow> jsnumber" where
  "negate n =
     (case n of
        NaN \<Rightarrow> NaN
      | PosInfinity \<Rightarrow> NegInfinity
      | NegInfinity \<Rightarrow> PosInfinity
      | Finite x \<Rightarrow> Finite (- x))"

definition str_decimal :: "jsstring \<Rightarrow> jsnumber" where
  "str_decimal s =
     (case s of
        [] \<Rightarrow> NaN
      | c # r \<Rightarrow>
          if c = 0x2B then unsigned_literal r
          else if c = 0x2D then negate (unsigned_literal r)
          else unsigned_literal s)"

definition radix_of :: "16 word \<Rightarrow> nat option" where
  "radix_of c =
     (if c = 0x62 \<or> c = 0x42 then Some 2
      else if c = 0x6F \<or> c = 0x4F then Some 8
      else if c = 0x78 \<or> c = 0x58 then Some 16
      else None)"

definition non_decimal :: "jsstring \<Rightarrow> jsnumber option" where
  "non_decimal s =
     (case s of
        c0 # c1 # ds \<Rightarrow>
          if c0 = 0x30 then
            (case radix_of c1 of
               None \<Rightarrow> None
             | Some b \<Rightarrow>
                 if is_digits b ds then Some (to_number (of_nat (digits_value b ds)))
                 else Some NaN)
          else None
      | _ \<Rightarrow> None)"

definition Number :: "jsstring \<Rightarrow> jsnumber" where
  "Number str =
     (let text = trim str
      in if text = [] then Finite 0
         else (case non_decimal text of Some n \<Rightarrow> n | None \<Rightarrow> str_decimal text))"

section \<open>RPC client: parseCommand\<close>

text \<open>
  \<^verbatim>\<open>parts[0]\<close> of an empty array would be \<^verbatim>\<open>undefined\<close>: the method is an option.
  A parameter is the number \<^verbatim>\<open>Number(p)\<close> unless that is NaN, and the string itself
  otherwise.
\<close>

datatype param = PString jsstring | PNumber jsnumber

record command =
  "method" :: "jsstring option"
  params :: "param list"

definition parseCommand :: "jsstring \<Rightarrow> command" where
  "parseCommand cmd =
     (let parts = split_ws (trim cmd); method = (case parts of [] \<Rightarrow> None | m # _ \<Rightarrow> Some m);
          params = map (\<lambda>p. let num = Number p in if isNaN num then PString p else PNumber num)
                     (drop 1 parts)
      in \<lparr>method = method, params = params\<rparr>)"

text \<open>
  The words of a string, as the specification reads the splitting: the maximal runs of
  characters that are not white space, in order.
\<close>

fun tokens_from :: "jsstring \<Rightarrow> jsstring \<Rightarrow> jsstring list" where
  "tokens_from cur [] = (if cur = [] then [] else [cur])"
| "tokens_from cur (c # cs) =
     (if is_ws c then (if cur = [] then tokens_from [] cs else cur # tokens_from [] cs)
      else tokens_from (cur @ [c]) cs)"

definition ws_tokens :: "jsstring \<Rightarrow> jsstring list" where
  "ws_tokens s = tokens_from [] s"

definition coerce :: "jsstring \<Rightarrow> param" where
  "coerce p = (if Number p = NaN then PString p else PNumber (Number p))"

section \<open>Algorithm classifier: detectAlgo\<close>

text \<open>
  A block version is a JavaScript number holding an integer.  The operator \<^verbatim>\<open>&\<close>
  converts both operands with ToInt32 (the integer modulo \<open>2^32\<close>, read as two's
  complement), works on the 32 bits and returns the signed reading of the result;
  \<^verbatim>\<open>|\<close> does the same with OR.
\<close>

definition js_and :: "int \<Rightarrow> int \<Rightarrow> int" where
  "js_and a b = sint ((word_of_int a :: 32 word) AND word_of_int b)"

definition js_or :: "int \<Rightarrow> int \<Rightarrow> int" where
  "js_or a b = sint ((word_of_int a :: 32 word) OR word_of_int b)"

definition detectAlgo :: "int \<Rightarrow> string" where
  "detectAlgo version =
     (let MASK = 0xFFFFFF00;
          MPW = 0x30090000;
          SCR = 0x30090100
      in if js_and version MASK = MPW then ''meowpow''
         else if js_and version MASK = SCR then ''scrypt''
         else ''unknown'')"

section \<open>Subsidy calculator: getBlockSubsidy and the block-reward record\<close>

definition INITIAL_SUBSIDY :: rat where
  "INITIAL_SUBSIDY = 5000"

definition HALVING_INTERVAL :: rat where
  "HALVING_INTERVAL = 2100000"

definition getBlockSubsidy :: "rat \<Rightarrow> rat" where
  "getBlockSubsidy height =
     (let halvings = Math_floor (js_div height HALVING_INTERVAL)
      in if halvings \<ge> 64 then 0
         else js_div INITIAL_SUBSIDY (Math_pow 2 halvings))"

record reward =
  height :: rat
  subsidy_total :: rat
  miner :: rat
  foundation :: rat

text \<open>
  The value the producer of \<^verbatim>\<open>/block-reward\<close> returns for the chain height it read;
  the literals \<^verbatim>\<open>0.60\<close> and \<^verbatim>\<open>0.40\<close> denote the nearest binary64 values.
\<close>

definition blockReward :: "rat \<Rightarrow> reward" where
  "blockReward chain_blocks =
     (let height = chain_blocks;
          subsidy = getBlockSubsidy height;
          miner = js_mul subsidy (fl64 (60 / 100));
          foundation = js_mul subsidy (fl64 (40 / 100))
      in \<lparr>height = height, subsidy_total = subsidy, miner = miner, foundation = foundation\<rparr>)"

section \<open>Block statistics: calculateBlockStats\<close>

text \<open>
  Block times, spacings and their sum are integers far below \<open>2^53\<close>, where the
  arithmetic of JavaScript numbers is exact; the average is a division and is rounded.
  The first argument of \<open>calculateBlockStats\<close> is the value that \<^verbatim>\<open>Date.now()\<close>
  returns inside the function (milliseconds).  \<^verbatim>\<open>Array.prototype.sort\<close> is stable.
\<close>

record block =
  height :: int
  time :: int
  version :: int

record stats =
  blocks_found :: nat
  avg_block_time :: "int option"

record block_stats =
  meowpow :: stats
  scrypt :: stats

fun separate :: "block list \<Rightarrow> block list \<times> block list \<Rightarrow> block list \<times> block list" where
  "separate [] (meowpowBlocks, scryptBlocks) = (meowpowBlocks, scryptBlocks)"
| "separate (block # rest) (meowpowBlocks, scryptBlocks) =
     (let algo = detectAlgo (version block)
      in if algo = ''meowpow'' then separate rest (meowpowBlocks @ [block], scryptBlocks)
         else if algo = ''scrypt'' then separate rest (meowpowBlocks, scryptBlocks @ [block])
         else separate rest (meowpowBlocks, scryptBlocks))"

function spacings_loop :: "nat \<Rightarrow> block list \<Rightarrow> int list \<Rightarrow> int list" where
  "spacings_loop i algoBlocks spacings =
     (if i < length algoBlocks then
        spacings_loop (i + 1) algoBlocks
          (let spacing = time (algoBlocks ! i) - time (algoBlocks ! (i - 1))
           in if spacing > 0 \<and> spacing \<le> 3600 then spacings @ [spacing] else spacings)
      else spacings)"
  by pat_completeness auto
termination
  by (relation "measure (\<lambda>(i, algoBlocks, spacings). length algoBlocks - i)") auto

declare spacings_loop.simps [simp del]

definition calculateAvgBlockTime :: "block list \<Rightarrow> rat option" where
  "calculateAvgBlockTime algoBlocks =
     (if length algoBlocks < 2 then None
      else (let spacings = spacings_loop 1 algoBlocks []
            in if length spacings = 0 then None
               else Some (js_div (of_int (foldl (+) 0 spacings)) (of_nat (length spacings)))))"

definition unix_now :: "int \<Rightarrow> int" where
  "unix_now dateNow = Math_floor (js_div (of_int dateNow) 1000)"

definition round_avg :: "rat option \<Rightarrow> int option" where
  "round_avg avgTime =
     (case avgTime of
        None \<Rightarrow> None
      | Some a \<Rightarrow> if a \<noteq> 0 then Some (Math_round a) else None)"

definition calculateBlockStats :: "int \<Rightarrow> block list \<Rightarrow> int \<Rightarrow> block_stats" where
  "calculateBlockStats dateNow blocks windowMinutes =
     (let now = unix_now dateNow;
          windowSeconds = windowMinutes * 60;
          windowBlocks = filter (\<lambda>b. time b \<noteq> 0 \<and> now - time b \<le> windowSeconds) blocks;
          (meowpowBlocks0, scryptBlocks0) = separate windowBlocks ([], []);
          meowpowBlocks = sort_key time meowpowBlocks0;
          scryptBlocks = sort_key time scryptBlocks0;
          meowpowAvgTime = calculateAvgBlockTime meowpowBlocks;
          scryptAvgTime = calculateAvgBlockTime scryptBlocks
      in \<lparr>meowpow = \<lparr>blocks_found = length meowpowBlocks,
                     avg_block_time = round_avg meowpowAvgTime\<rparr>,
          scrypt = \<lparr>blocks_found = length scryptBlocks,
                    avg_block_time = round_avg scryptAvgTime\<rparr>\<rparr>)"

text \<open>
  The statistics of one algorithm as the specification words them: the partition holds
  the samples with \<open>nowUnix - time \<le> windowMinutes * 60\<close> that classify as that
  algorithm; then come their times in ascending order, the consecutive differences, of
  which those in \<open>(0, 3600]\<close> are kept, and the nearest integer to the exact average of
  the kept ones.
\<close>

definition partition_of :: "string \<Rightarrow> int \<Rightarrow> int \<Rightarrow> block list \<Rightarrow> block list" where
  "partition_of a nowUnix windowMinutes samples =
     filter (\<lambda>b. nowUnix - time b \<le> windowMinutes * 60
                 \<and> detectAlgo (version b) = a) samples"

fun deltas :: "int list \<Rightarrow> int list" where
  "deltas (t0 # t1 # ts) = (t1 - t0) # deltas (t1 # ts)"
| "deltas ts = []"

definition retained :: "int list \<Rightarrow> int list" where
  "retained ts = filter (\<lambda>d. 0 < d \<and> d \<le> 3600) (deltas (sort ts))"


section \<open>Cache store and cachedFetch\<close>

text \<open>
  \<open>Cache\<close> is the module's one mutable object: the values by key and one time stamp.
  A property that was never written reads as \<^verbatim>\<open>undefined\<close>.  A producer is an
  action on the world outside the cache (the node behind the RPC client): it returns
  a value or throws, and does not touch the cache.  \<open>cachedFetch\<close> runs from its first
  statement to its return without another request interleaving.  \<open>TTL\<close> is the
  configured duration; \<open>now\<close> is the value of \<^verbatim>\<open>Date.now()\<close> read first and \<open>t\<close> the
  one read in \<open>isCacheValid\<close>.  Logging is outside the model: the calls of \<^verbatim>\<open>log\<close>
  return normally and what a producer throws is an error object.
\<close>

datatype 'v jsvalue = JNull | JUndefined | JValue 'v

record 'v Cache =
  data :: "jsstring \<Rightarrow> 'v jsvalue"
  updated :: int

definition cache_keys :: "jsstring list" where
  "cache_keys = map js [''total_supply'', ''circulating_supply'', ''block_reward'',
     ''reward_breakdown'', ''mining_info'', ''height'', ''miner_reward'',
     ''foundation_reward'']"

definition initial_Cache :: "'v Cache" where
  "initial_Cache = \<lparr>data = (\<lambda>k. if k \<in> set cache_keys then JNull else JUndefined), updated = 0\<rparr>"

definition isCacheValid :: "int \<Rightarrow> int \<Rightarrow> 'v Cache \<Rightarrow> bool" where
  "isCacheValid ttlMs t C = (if updated C = 0 then False else t - updated C < ttlMs)"

definition clearCache :: "'v Cache \<Rightarrow> 'v Cache" where
  "clearCache C = initial_Cache"

definition cachedFetch ::
  "int \<Rightarrow> int \<Rightarrow> int \<Rightarrow> jsstring \<Rightarrow> ('w \<Rightarrow> ('e + 'v jsvalue) \<times> 'w)
     \<Rightarrow> 'v Cache \<times> 'w \<Rightarrow> ('e + 'v jsvalue) \<times> 'v Cache \<times> 'w" where
  "cachedFetch TTL now t key fn = (\<lambda>(C, w).
     if isCacheValid TTL t C \<and> data C key \<noteq> JNull \<and> data C key \<noteq> JUndefined
     then (Inr (data C key), C, w)
     else (case fn w of
             (Inr val, w') \<Rightarrow>
               (Inr val, C\<lparr>data := (data C)(key := val), updated := now\<rparr>, w')
           | (Inl err, w') \<Rightarrow>
               if data C key \<noteq> JNull \<and> data C key \<noteq> JUndefined
               then (Inr (data C key), C, w')
               else (Inl err, C, w')))"

section \<open>Properties of the classifier\<close>

lemma sint_eq_small:
  fixes w :: "32 word"
  assumes "k < 2 ^ 31" "0 \<le> k"
  shows "sint w = k \<longleftrightarrow> w = word_of_int k"
proof
  assume "sint w = k"
  then have "word_of_int (sint w) = (word_of_int k :: 32 word)" by simp
  then show "w = word_of_int k" by simp
next
  assume "w = word_of_int k"
  moreover have "signed_take_bit (31::nat) k = k"
    using assms by (intro signed_take_bit_int_eq_self) simp_all
  ultimately show "sint w = k"
    by (simp add: sint_sbintrunc')
qed

lemma detectAlgo_word:
  "detectAlgo v =
     (if (word_of_int v :: 32 word) AND 0xFFFFFF00 = 0x30090000 then ''meowpow''
      else if (word_of_int v :: 32 word) AND 0xFFFFFF00 = 0x30090100 then ''scrypt''
      else ''unknown'')"
proof -
  have a: "js_and v 0xFFFFFF00 = 0x30090000 \<longleftrightarrow>
           (word_of_int v :: 32 word) AND 0xFFFFFF00 = 0x30090000"
    unfolding js_and_def using sint_eq_small [of "0x30090000"] by simp
  have b: "js_and v 0xFFFFFF00 = 0x30090100 \<longleftrightarrow>
           (word_of_int v :: 32 word) AND 0xFFFFFF00 = 0x30090100"
    unfolding js_and_def using sint_eq_small [of "0x30090100"] by simp
  show ?thesis
    unfolding detectAlgo_def Let_def a b ..
qed

lemma low_byte_masked:
  fixes w :: "32 word"
  shows "(w OR 0xFF) AND 0xFFFFFF00 = w AND 0xFFFFFF00"
proof -
  have "(0xFF :: 32 word) AND 0xFFFFFF00 = 0" by simp
  then show ?thesis
    by (simp add: bit.conj_disj_distrib2)
qed

text \<open>
  C5.  For every 32-bit version, read signed (\<open>sint w\<close>) or unsigned (\<open>uint w\<close>),
  detectAlgo masks the version with 0xFFFFFF00 and answers "meowpow" when the masked bits
  are 0x30090000, "scrypt" when they are 0x30090100 and "unknown" otherwise.  In
  particular 0x30090042 is meowpow, 0x30090177 is scrypt and 0x12345678 is unknown.
\<close>

theorem detectAlgo_classifies:
  fixes w :: "32 word"
  shows "detectAlgo (sint w) =
           (if w AND 0xFFFFFF00 = 0x30090000 then ''meowpow''
            else if w AND 0xFFFFFF00 = 0x30090100 then ''scrypt''
            else ''unknown'')
       \<and> detectAlgo (uint w) = detectAlgo (sint w)
       \<and> detectAlgo 0x30090042 = ''meowpow''
       \<and> detectAlgo 0x30090177 = ''scrypt''
       \<and> detectAlgo 0x12345678 = ''unknown''"
  by (simp add: detectAlgo_word)

theorem detectAlgo_classifies_witness:
  "detectAlgo (sint (0xB0090042 :: 32 word)) = ''unknown''
   \<and> detectAlgo (uint (0x300900FF :: 32 word)) = ''meowpow''
   \<and> detectAlgo (sint (0x30090100 :: 32 word)) = ''scrypt''"
  using detectAlgo_classifies [of "0xB0090042"] detectAlgo_classifies [of "0x300900FF"]
    detectAlgo_classifies [of "0x30090100"]
  by simp

text \<open>
  C6.  For every version \<open>v\<close> the classification is exactly one of the three kinds, and
  setting the low byte (\<^verbatim>\<open>v | 0xFF\<close>) does not change it.
\<close>

theorem detectAlgo_low_byte_irrelevant:
  "detectAlgo v \<in> {''meowpow'', ''scrypt'', ''unknown''}
   \<and> detectAlgo (js_or v 0xFF) = detectAlgo v"
proof -
  have "detectAlgo v \<in> {''meowpow'', ''scrypt'', ''unknown''}"
    by (simp add: detectAlgo_word)
  moreover have "detectAlgo (js_or v 0xFF) = detectAlgo v"
    using low_byte_masked [of "word_of_int v"]
    by (simp add: detectAlgo_word js_or_def)
  ultimately show ?thesis ..
qed

theorem detectAlgo_low_byte_irrelevant_witness:
  "detectAlgo (js_or 0x30090142 0xFF) = ''scrypt'' \<and> detectAlgo 0x30090142 = ''scrypt''"
  using detectAlgo_low_byte_irrelevant [of "0x30090142"]
  by (simp add: detectAlgo_word)

section \<open>Properties of the number model\<close>

lemma two_powi_less_iff: "(2::rat) powi m < 2 powi n \<longleftrightarrow> m < n"
proof
  assume lt: "(2::rat) powi m < 2 powi n"
  show "m < n"
  proof (rule ccontr)
    assume "\<not> m < n"
    then have "(2::rat) powi n \<le> 2 powi m"
      by (intro power_int_increasing) simp_all
    with lt show False by simp
  qed
next
  assume "m < n"
  then show "(2::rat) powi m < 2 powi n"
    by (intro power_int_strict_increasing) simp_all
qed

lemma two_powi_le_iff: "(2::rat) powi m \<le> 2 powi n \<longleftrightarrow> m \<le> n"
  using two_powi_less_iff [of n m] by (simp add: not_less [symmetric])

lemma two_powi_add: "(2::rat) powi (m + n) = 2 powi m * 2 powi n"
  by (rule power_int_add) simp

lemma two_powi_diff: "(2::rat) powi (m - n) = 2 powi m / 2 powi n"
  by (rule power_int_diff) simp

lemma bitlen_powi_bounds:
  assumes "0 < a"
  shows "(2::rat) powi (bitlen a - 1) \<le> of_int a" "of_int a < (2::rat) powi (bitlen a)"
proof -
  from assms have b: "2 ^ nat (bitlen a - 1) \<le> a" "a < 2 ^ nat (bitlen a)"
    using bitlen_bounds [of a] by simp_all
  from assms have ge1: "1 \<le> bitlen a"
    using bitlen_eq_zero_iff [of a] bitlen_nonneg [of a] by linarith
  have "(2::rat) powi (bitlen a - 1) = of_int (2 ^ nat (bitlen a - 1))"
    using ge1 by (simp add: power_int_def)
  also have "\<dots> \<le> of_int a"
    using b(1) by (simp only: of_int_le_iff)
  finally show "(2::rat) powi (bitlen a - 1) \<le> of_int a" .
  have "(of_int a :: rat) < of_int (2 ^ nat (bitlen a))"
    using b(2) by (simp only: of_int_less_iff)
  also have "\<dots> = 2 powi (bitlen a)"
    using ge1 by (simp add: power_int_def)
  finally show "of_int a < (2::rat) powi (bitlen a)" .
qed

lemma ilog2_bounds:
  assumes "0 < x"
  shows "2 powi (ilog2 x) \<le> x" and "x < 2 powi (ilog2 x + 1)"
proof -
  obtain a b where q: "quotient_of x = (a, b)"
    by (cases "quotient_of x")
  then have bpos: "0 < b" and x: "x = of_int a / of_int b"
    by (rule quotient_of_denom_pos, rule quotient_of_div)
  with assms have apos: "0 < a"
    by (simp add: zero_less_divide_iff)
  let ?k = "bitlen a - bitlen b"
  have lo: "2 powi (?k - 1) \<le> x"
  proof -
    have "2 powi (?k - 1) = (2::rat) powi (bitlen a - 1) / 2 powi (bitlen b)"
      by (simp add: two_powi_diff [symmetric] algebra_simps)
    also have "\<dots> \<le> of_int a / 2 powi (bitlen b)"
      using bitlen_powi_bounds(1) [OF apos] by (simp add: divide_right_mono)
    also have "\<dots> \<le> of_int a / of_int b"
      using bitlen_powi_bounds(2) [OF bpos] apos bpos
      by (intro divide_left_mono) simp_all
    finally show ?thesis by (simp add: x)
  qed
  have hi: "x < 2 powi (?k + 1)"
  proof -
    have "x = of_int a / of_int b" by (rule x)
    also have "\<dots> < 2 powi (bitlen a) / of_int b"
      using bitlen_powi_bounds(2) [OF apos] bpos by (simp add: divide_strict_right_mono)
    also have "\<dots> \<le> 2 powi (bitlen a) / 2 powi (bitlen b - 1)"
      using bitlen_powi_bounds(1) [OF bpos] bpos
      by (intro divide_left_mono) simp_all
    also have "\<dots> = 2 powi (?k + 1)"
      by (simp add: two_powi_diff [symmetric] algebra_simps)
    finally show ?thesis .
  qed
  show "2 powi (ilog2 x) \<le> x"
    using lo by (simp add: ilog2_def q Let_def)
  show "x < 2 powi (ilog2 x + 1)"
    using hi by (auto simp add: ilog2_def q Let_def not_le)
qed

lemma ilog2_unique:
  assumes "2 powi e \<le> x" "x < 2 powi (e + 1)"
  shows "ilog2 x = e"
proof -
  have "0 < (2::rat) powi e" by simp
  with assms(1) have pos: "0 < x" by linarith
  have "(2::rat) powi e < 2 powi (ilog2 x + 1)"
    using assms(1) ilog2_bounds(2) [OF pos] by (rule le_less_trans)
  moreover have "(2::rat) powi (ilog2 x) < 2 powi (e + 1)"
    using ilog2_bounds(1) [OF pos] assms(2) by (rule le_less_trans)
  ultimately show ?thesis
    by (simp add: two_powi_less_iff)
qed

lemma ilog2_ge:
  assumes "2 powi k \<le> x"
  shows "k \<le> ilog2 x"
proof -
  have "0 < (2::rat) powi k" by simp
  with assms have pos: "0 < x" by linarith
  have "(2::rat) powi k < 2 powi (ilog2 x + 1)"
    using assms ilog2_bounds(2) [OF pos] by (rule le_less_trans)
  then show ?thesis by (simp add: two_powi_less_iff)
qed

lemma ilog2_less:
  assumes "0 < x" "x < 2 powi k"
  shows "ilog2 x < k"
proof -
  have "(2::rat) powi (ilog2 x) < 2 powi k"
    using ilog2_bounds(1) [OF assms(1)] assms(2) by (rule le_less_trans)
  then show ?thesis by (simp add: two_powi_less_iff)
qed

lemma rne_bounds:
  "of_int (rne y) - y \<le> 1 / 2" "y - of_int (rne y) \<le> 1 / 2"
proof -
  show "of_int (rne y) - y \<le> 1 / 2"
    by (simp add: rne_def Let_def; linarith)
  show "y - of_int (rne y) \<le> 1 / 2"
    by (simp add: rne_def Let_def; linarith)
qed

lemma rne_ge:
  assumes "of_int k \<le> y"
  shows "k \<le> rne y"
proof -
  have "(of_int k :: rat) \<le> of_int (rne y) + 1 / 2"
    using assms rne_bounds(2) [of y] by linarith
  then have "(of_int k :: rat) < of_int (rne y) + 1" by linarith
  then have "(of_int k :: rat) < of_int (rne y + 1)" by simp
  then have "k < rne y + 1" by (simp only: of_int_less_iff)
  then show ?thesis by simp
qed

lemma rne_less:
  assumes "y < of_int k - 1 / 2"
  shows "rne y < k"
proof -
  have "(of_int (rne y) :: rat) < of_int k"
    using assms rne_bounds(1) [of y] by linarith
  then show ?thesis by (simp only: of_int_less_iff)
qed

lemma fl64_normal:
  assumes "0 < x" "- 1022 \<le> ilog2 x"
  shows "fl64 x = of_int (rne (x / 2 powi (ilog2 x - 52))) * 2 powi (ilog2 x - 52)"
  using assms by (simp add: fl64_def quantum_def max_def)

lemma on_grid:
  assumes "e \<le> j"
  shows "of_int m * (2::rat) powi j = of_int (m * 2 ^ nat (j - e)) * 2 powi e"
proof -
  have "(2::rat) powi j = 2 powi ((j - e) + e)" by simp
  also have "\<dots> = 2 powi (j - e) * 2 powi e" by (rule two_powi_add)
  also have "(2::rat) powi (j - e) = 2 ^ nat (j - e)"
    using assms by (simp add: power_int_def)
  finally show ?thesis by simp
qed

lemma fl64_lower:
  assumes "0 < x" "- 1022 \<le> ilog2 x"
    and "ilog2 x - 52 \<le> j" "of_int m * 2 powi j \<le> x"
  shows "of_int m * 2 powi j \<le> fl64 x"
proof -
  let ?q = "(2::rat) powi (ilog2 x - 52)"
  let ?A = "m * 2 ^ nat (j - (ilog2 x - 52))"
  have qpos: "0 < ?q" by simp
  have v: "of_int m * 2 powi j = of_int ?A * ?q"
    using assms(3) by (rule on_grid)
  with assms(4) have "of_int ?A * ?q \<le> x" by simp
  then have "of_int ?A \<le> x / ?q"
    using qpos by (simp add: pos_le_divide_eq)
  then have "?A \<le> rne (x / ?q)" by (rule rne_ge)
  then have "(of_int ?A :: rat) \<le> of_int (rne (x / ?q))" by (simp only: of_int_le_iff)
  then have "of_int ?A * ?q \<le> of_int (rne (x / ?q)) * ?q"
    using qpos by (simp only: mult_le_cancel_right_pos)
  then show ?thesis
    by (simp only: v fl64_normal [OF assms(1,2)])
qed

lemma fl64_upper:
  assumes "0 < x" "- 1022 \<le> ilog2 x"
    and "ilog2 x - 52 \<le> j" "x < of_int m * 2 powi j - 2 powi (ilog2 x - 53)"
  shows "fl64 x < of_int m * 2 powi j"
proof -
  let ?q = "(2::rat) powi (ilog2 x - 52)"
  let ?B = "m * 2 ^ nat (j - (ilog2 x - 52))"
  have qpos: "0 < ?q" by simp
  have v: "of_int m * 2 powi j = of_int ?B * ?q"
    using assms(3) by (rule on_grid)
  have half: "(2::rat) powi (ilog2 x - 53) = ?q / 2"
    using two_powi_diff [of "ilog2 x - 52" 1] by simp
  from assms(4) have "x < (of_int ?B - 1 / 2) * ?q"
    by (simp add: v half algebra_simps)
  then have "x / ?q < of_int ?B - 1 / 2"
    using qpos by (simp add: pos_divide_less_eq)
  then have "rne (x / ?q) < ?B" by (rule rne_less)
  then have "(of_int (rne (x / ?q)) :: rat) < of_int ?B" by (simp only: of_int_less_iff)
  then have "of_int (rne (x / ?q)) * ?q < of_int ?B * ?q"
    using qpos by (simp only: mult_less_cancel_right_pos)
  then show ?thesis
    by (simp only: v fl64_normal [OF assms(1,2)])
qed

lemma fl64_scale:
  assumes "0 < x" "- 1022 \<le> ilog2 x" "- 1022 \<le> ilog2 x + k"
  shows "fl64 (x * 2 powi k) = fl64 x * 2 powi k"
proof -
  have pos: "0 < x * 2 powi k" using assms(1) by simp
  have "2 powi (ilog2 x + k) \<le> x * 2 powi k"
    using ilog2_bounds(1) [OF assms(1)] by (simp add: two_powi_add)
  moreover have "x * 2 powi k < 2 powi (ilog2 x + k + 1)"
    using ilog2_bounds(2) [OF assms(1)] two_powi_add [of "ilog2 x + 1" k]
    by (simp add: algebra_simps)
  ultimately have e: "ilog2 (x * 2 powi k) = ilog2 x + k"
    by (rule ilog2_unique)
  have q: "(2::rat) powi (ilog2 x + k - 52) = 2 powi (ilog2 x - 52) * 2 powi k"
    using two_powi_add [of "ilog2 x - 52" k] by (simp add: algebra_simps)
  have A: "fl64 (x * 2 powi k)
          = of_int (rne (x * 2 powi k / 2 powi (ilog2 (x * 2 powi k) - 52)))
              * 2 powi (ilog2 (x * 2 powi k) - 52)"
    by (rule fl64_normal [OF pos]) (simp add: e assms(3))
  have B: "(2::rat) powi (ilog2 (x * 2 powi k) - 52) = 2 powi (ilog2 x - 52) * 2 powi k"
    unfolding e by (rule q)
  have C: "x * 2 powi k / (2 powi (ilog2 x - 52) * 2 powi k) = x / 2 powi (ilog2 x - 52)"
    by simp
  show ?thesis
    unfolding A B C fl64_normal [OF assms(1,2)] by (simp only: mult.assoc)
qed

text \<open>
  The rounding on some values: one tenth, a tie above \<open>2^53\<close> that goes to the even
  neighbour below, and the next tie, which goes to the even neighbour above.
\<close>

lemma fl64_examples:
  "fl64 (1 / 10) = 3602879701896397 / 36028797018963968"
  "fl64 9007199254740993 = 9007199254740992"
  "fl64 9007199254740995 = 9007199254740996"
  by code_simp+

section \<open>Properties of the subsidy calculator\<close>

lemma halvings_small:
  fixes h :: nat
  assumes "h div 2100000 < 64"
  shows "Math_floor (js_div (of_nat h) HALVING_INTERVAL) = int (h div 2100000)"
proof (cases "h = 0")
  case True
  then show ?thesis
    by (simp add: Math_floor_def js_div_def fl64_def HALVING_INTERVAL_def)
next
  case False
  define n where "n = h div 2100000"
  define x :: rat where "x = of_nat h / 2100000"
  have xpos: "0 < x" using False by (simp add: x_def)
  have "n * 2100000 \<le> h" by (simp add: n_def)
  then have "(of_nat (n * 2100000) :: rat) \<le> of_nat h" by (simp only: of_nat_le_iff)
  then have lo: "of_nat n \<le> x" by (simp add: x_def)
  have "h + 1 \<le> (n + 1) * 2100000"
    using div_mult_mod_eq [of h 2100000] pos_mod_bound [of 2100000 "int h"]
    by (simp add: n_def)
  then have "(of_nat (h + 1) :: rat) \<le> of_nat ((n + 1) * 2100000)"
    by (simp only: of_nat_le_iff)
  then have hi: "x + 1 / 2100000 \<le> of_nat n + 1" by (simp add: x_def)
  have "1 \<le> h" using False by simp
  then have "(1 :: rat) \<le> of_nat h" by (metis of_nat_1 of_nat_le_iff)
  then have "(2::rat) powi (- 22) \<le> x"
    by (simp add: x_def power_int_minus field_simps)
  then have e0: "- 22 \<le> ilog2 x" by (rule ilog2_ge)
  then have norm: "- 1022 \<le> ilog2 x" by linarith
  have "of_nat n < (64 :: rat)"
    using assms by (fold n_def) (metis of_nat_less_iff of_nat_numeral)
  with hi have "x < 2 powi 6" by simp
  with xpos have e1: "ilog2 x < 6" by (rule ilog2_less)
  have low: "of_int (int n) * 2 powi 0 \<le> fl64 x"
  proof (rule fl64_lower [OF xpos norm])
    show "ilog2 x - 52 \<le> 0" using e1 by linarith
    show "of_int (int n) * 2 powi 0 \<le> x" using lo by simp
  qed
  have "(2::rat) powi (ilog2 x - 53) \<le> 2 powi (- 48)"
    using e1 by (subst two_powi_le_iff) linarith
  also have "(2::rat) powi (- 48) < 1 / 2100000"
    by (simp add: power_int_minus field_simps)
  finally have small: "(2::rat) powi (ilog2 x - 53) < 1 / 2100000" .
  have up: "fl64 x < of_int (int n + 1) * 2 powi 0"
  proof (rule fl64_upper [OF xpos norm])
    show "ilog2 x - 52 \<le> 0" using e1 by linarith
    show "x < of_int (int n + 1) * 2 powi 0 - 2 powi (ilog2 x - 53)"
      using hi small by simp
  qed
  have "\<lfloor>fl64 x\<rfloor> = int n"
    using low up by (intro floor_unique) simp_all
  then show ?thesis
    by (simp add: Math_floor_def js_div_def HALVING_INTERVAL_def x_def n_def)
qed

lemma halvings_large:
  fixes h :: nat
  assumes "64 \<le> h div 2100000"
  shows "64 \<le> Math_floor (js_div (of_nat h) HALVING_INTERVAL)"
proof -
  define x :: rat where "x = of_nat h / 2100000"
  have "64 * 2100000 \<le> h"
    using assms by (simp add: less_eq_div_iff_mult_less_eq)
  then have "(of_nat (64 * 2100000) :: rat) \<le> of_nat h" by (simp only: of_nat_le_iff)
  then have x64: "2 powi 6 \<le> x" by (simp add: x_def)
  then have e: "6 \<le> ilog2 x" by (rule ilog2_ge)
  have xpos: "0 < x" using x64 by simp
  have "of_int 1 * 2 powi (ilog2 x) \<le> fl64 x"
  proof (rule fl64_lower [OF xpos])
    show "- 1022 \<le> ilog2 x" using e by linarith
    show "ilog2 x - 52 \<le> ilog2 x" by simp
    show "of_int 1 * 2 powi ilog2 x \<le> x" using ilog2_bounds(1) [OF xpos] by simp
  qed
  moreover have "(2::rat) powi 6 \<le> 2 powi (ilog2 x)"
    using e by (subst two_powi_le_iff)
  ultimately have "of_int 64 \<le> fl64 x" by simp
  then have "64 \<le> \<lfloor>fl64 x\<rfloor>" by (simp only: le_floor_iff)
  then show ?thesis
    by (simp add: Math_floor_def js_div_def HALVING_INTERVAL_def x_def)
qed

lemma ilog2_1: "ilog2 1 = 0"
  by (rule ilog2_unique) simp_all

lemma fl64_two_powi:
  assumes "- 1022 \<le> k"
  shows "fl64 (2 powi k) = 2 powi k"
proof -
  have "fl64 1 = 1" by code_simp
  then show ?thesis
    using fl64_scale [of 1 k] assms by (simp add: ilog2_1)
qed

lemma scaled_5000:
  assumes "0 \<le> k" "k < 64"
  shows "fl64 (5000 / 2 powi k) = 5000 / 2 powi k"
    and "fl64 (5000 / 2 powi k * fl64 (60 / 100)) = 3000 / 2 powi k"
    and "fl64 (5000 / 2 powi k * fl64 (40 / 100)) = 2000 / 2 powi k"
    and "fl64 (3000 / 2 powi k + 2000 / 2 powi k) = 5000 / 2 powi k"
proof -
  have e: "ilog2 5000 = 12" by code_simp
  have v: "fl64 5000 = 5000" by code_simp
  have e6: "ilog2 (5000 * fl64 (3 / 5)) = 11" by code_simp
  have v6: "fl64 (5000 * fl64 (3 / 5)) = 3000" by code_simp
  have e4: "ilog2 (5000 * fl64 (2 / 5)) = 10" by code_simp
  have v4: "fl64 (5000 * fl64 (2 / 5)) = 2000" by code_simp
  have p6: "0 < 5000 * fl64 (3 / 5)" by code_simp
  have p4: "0 < 5000 * fl64 (2 / 5)" by code_simp
  have d: "a / 2 powi k = a * 2 powi (- k)" for a :: rat
    by (simp add: power_int_minus field_simps)
  show a: "fl64 (5000 / 2 powi k) = 5000 / 2 powi k"
    using fl64_scale [of 5000 "- k"] assms by (simp add: d e v)
  have "fl64 (5000 / 2 powi k * fl64 (60 / 100)) = fl64 (5000 * fl64 (3 / 5) * 2 powi (- k))"
    by (simp add: d mult.commute mult.left_commute)
  also have "\<dots> = fl64 (5000 * fl64 (3 / 5)) * 2 powi (- k)"
  proof (rule fl64_scale)
    show "0 < 5000 * fl64 (3 / 5)" by (rule p6)
    show "- 1022 \<le> ilog2 (5000 * fl64 (3 / 5))" unfolding e6 by simp
    show "- 1022 \<le> ilog2 (5000 * fl64 (3 / 5)) + - k" unfolding e6 using assms by linarith
  qed
  finally show "fl64 (5000 / 2 powi k * fl64 (60 / 100)) = 3000 / 2 powi k"
    by (simp add: v6 d)
  have "fl64 (5000 / 2 powi k * fl64 (40 / 100)) = fl64 (5000 * fl64 (2 / 5) * 2 powi (- k))"
    by (simp add: d mult.commute mult.left_commute)
  also have "\<dots> = fl64 (5000 * fl64 (2 / 5)) * 2 powi (- k)"
  proof (rule fl64_scale)
    show "0 < 5000 * fl64 (2 / 5)" by (rule p4)
    show "- 1022 \<le> ilog2 (5000 * fl64 (2 / 5))" unfolding e4 by simp
    show "- 1022 \<le> ilog2 (5000 * fl64 (2 / 5)) + - k" unfolding e4 using assms by linarith
  qed
  finally show "fl64 (5000 / 2 powi k * fl64 (40 / 100)) = 2000 / 2 powi k"
    by (simp add: v4 d)
  have "3000 / 2 powi k + 2000 / 2 powi k = (5000 :: rat) / 2 powi k"
    by (simp add: add_divide_distrib [symmetric])
  then show "fl64 (3000 / 2 powi k + 2000 / 2 powi k) = 5000 / 2 powi k"
    using a by simp
qed

lemma getBlockSubsidy_nat:
  fixes h :: nat
  shows "getBlockSubsidy (of_nat h) =
           (if h div 2100000 < 64 then 5000 / 2 ^ (h div 2100000) else 0)"
proof (cases "h div 2100000 < 64")
  case True
  then have k: "(0::int) \<le> int (h div 2100000)" "int (h div 2100000) < 64" by simp_all
  have pw: "Math_pow 2 (int (h div 2100000)) = 2 powi (int (h div 2100000))"
    unfolding Math_pow_def by (rule fl64_two_powi) simp
  have fl: "Math_floor (js_div (of_nat h) HALVING_INTERVAL) = int (h div 2100000)"
    by (rule halvings_small [OF True])
  show ?thesis
    unfolding getBlockSubsidy_def fl Let_def pw
    using True scaled_5000(1) [OF k]
    by (simp add: js_div_def INITIAL_SUBSIDY_def)
next
  case False
  then have "64 \<le> Math_floor (js_div (of_nat h) HALVING_INTERVAL)"
    by (intro halvings_large) simp
  with False show ?thesis
    by (simp add: getBlockSubsidy_def)
qed

text \<open>
  C2.  For every height \<open>h \<ge> 0\<close> the total subsidy is \<open>5000 / 2^(h div 2100000)\<close> when
  \<open>h div 2100000 < 64\<close> and 0 otherwise; the miner share is the product of the total
  and 0.60 and the foundation share the product of the total and 0.40, both as
  JavaScript computes them; their JavaScript sum is the total exactly, hence within any
  tolerance.  At height 0 the record is (5000, 3000, 2000), at height 2100000 it is
  (2500, 1500, 1000).
\<close>

theorem blockReward_halving_schedule:
  fixes h :: nat
  shows "subsidy_total (blockReward (of_nat h))
           = (if h div 2100000 < 64 then 5000 / 2 ^ (h div 2100000) else 0)
       \<and> miner (blockReward (of_nat h))
           = js_mul (subsidy_total (blockReward (of_nat h))) (fl64 (60 / 100))
       \<and> foundation (blockReward (of_nat h))
           = js_mul (subsidy_total (blockReward (of_nat h))) (fl64 (40 / 100))
       \<and> js_add (miner (blockReward (of_nat h))) (foundation (blockReward (of_nat h)))
           = subsidy_total (blockReward (of_nat h))
       \<and> blockReward 0
           = \<lparr>reward.height = 0, subsidy_total = 5000, miner = 3000, foundation = 2000\<rparr>
       \<and> blockReward 2100000
           = \<lparr>reward.height = 2100000, subsidy_total = 2500, miner = 1500,
              foundation = 1000\<rparr>"
proof -
  have t: "subsidy_total (blockReward (of_nat h))
           = (if h div 2100000 < 64 then 5000 / 2 ^ (h div 2100000) else 0)"
    by (simp add: blockReward_def Let_def getBlockSubsidy_nat)
  have m: "miner (blockReward (of_nat h))
           = js_mul (subsidy_total (blockReward (of_nat h))) (fl64 (60 / 100))"
    by (simp add: blockReward_def Let_def)
  have f: "foundation (blockReward (of_nat h))
           = js_mul (subsidy_total (blockReward (of_nat h))) (fl64 (40 / 100))"
    by (simp add: blockReward_def Let_def)
  have s: "js_add (miner (blockReward (of_nat h))) (foundation (blockReward (of_nat h)))
           = subsidy_total (blockReward (of_nat h))"
  proof (cases "h div 2100000 < 64")
    case True
    then have k: "(0::int) \<le> int (h div 2100000)" "int (h div 2100000) < 64" by simp_all
    show ?thesis
      unfolding m f t using True scaled_5000(2,3,4) [OF k]
      by (simp add: js_mul_def js_add_def)
  next
    case False
    then show ?thesis
      unfolding m f t by (simp add: js_mul_def js_add_def fl64_def)
  qed
  have z: "blockReward 0
           = \<lparr>reward.height = 0, subsidy_total = 5000, miner = 3000, foundation = 2000\<rparr>"
    by code_simp
  have o: "blockReward 2100000
           = \<lparr>reward.height = 2100000, subsidy_total = 2500, miner = 1500,
              foundation = 1000\<rparr>"
    by code_simp
  from t m f s z o show ?thesis by blast
qed

theorem blockReward_halving_schedule_witness:
  "subsidy_total (blockReward 4200001) = 1250
   \<and> js_add (miner (blockReward 4200001)) (foundation (blockReward 4200001))
       = subsidy_total (blockReward 4200001)
   \<and> subsidy_total (blockReward 134400000) = 0"
proof -
  have n: "rat_of_nat 4200001 = 4200001" "rat_of_nat 134400000 = 134400000"
    by simp_all
  note r = blockReward_halving_schedule [of 4200001, unfolded n]
  note z = blockReward_halving_schedule [of 134400000, unfolded n]
  have "subsidy_total (blockReward 4200001) = 1250"
    using r [THEN conjunct1] by simp
  moreover have "js_add (miner (blockReward 4200001)) (foundation (blockReward 4200001))
       = subsidy_total (blockReward 4200001)"
    by (rule r [THEN conjunct2, THEN conjunct2, THEN conjunct2, THEN conjunct1])
  moreover have "subsidy_total (blockReward 134400000) = 0"
    using z [THEN conjunct1] by simp
  ultimately show ?thesis by blast
qed

section \<open>Properties of the block statistics\<close>

lemma separate_filter:
  "separate xs (m, s) =
     (m @ filter (\<lambda>b. detectAlgo (version b) = ''meowpow'') xs,
      s @ filter (\<lambda>b. detectAlgo (version b) = ''scrypt'') xs)"
  by (induction xs arbitrary: m s) (auto simp add: Let_def)

lemma map_sort_key:
  fixes f :: "'a \<Rightarrow> int"
  shows "map f (sort_key f xs) = sort (map f xs)"
proof -
  have "mset (map f (sort_key f xs)) = mset (map f xs)" by simp
  moreover have "sorted (map f (sort_key f xs))" by (rule sorted_sort_key)
  ultimately show ?thesis
    by (rule properties_for_sort [symmetric])
qed

lemma deltas_nth:
  "deltas ts = map (\<lambda>j. ts ! Suc j - ts ! j) [0..<length ts - 1]"
proof (induction ts rule: deltas.induct)
  case (1 t0 t1 ts)
  have "map (\<lambda>j. (t0 # t1 # ts) ! Suc j - (t0 # t1 # ts) ! j) [0..<Suc (length ts)]
          = (t1 - t0) # map (\<lambda>j. (t1 # ts) ! Suc j - (t1 # ts) ! j) [0..<length ts]"
    by (simp add: map_upt_Suc del: upt_Suc)
  with 1 show ?case by simp
qed simp_all

lemma spacings_loop_eq:
  assumes "1 \<le> i"
  shows "spacings_loop i bs acc =
           acc @ filter (\<lambda>d. 0 < d \<and> d \<le> 3600)
                   (map (\<lambda>j. time (bs ! j) - time (bs ! (j - 1))) [i..<length bs])"
  using assms
proof (induction i bs acc rule: spacings_loop.induct)
  case (1 i bs acc)
  show ?case
  proof (cases "i < length bs")
    case True
    then have "[i..<length bs] = i # [Suc i..<length bs]"
      by (rule upt_conv_Cons)
    with True 1 show ?thesis
      by (subst spacings_loop.simps) (simp add: Let_def)
  next
    case False
    then show ?thesis
      by (subst spacings_loop.simps) simp
  qed
qed

lemma spacings_loop_deltas:
  "spacings_loop 1 bs [] = filter (\<lambda>d. 0 < d \<and> d \<le> 3600) (deltas (map time bs))"
proof -
  have idx: "[1..<length bs] = map Suc [0..<length bs - 1]"
    by (cases bs) (simp_all add: map_Suc_upt del: upt_Suc)
  have "map (\<lambda>j. time (bs ! j) - time (bs ! (j - 1))) [1..<length bs]
          = map (\<lambda>j. time (bs ! Suc j) - time (bs ! j)) [0..<length bs - 1]"
    unfolding idx by (simp add: comp_def del: upt_Suc)
  also have "\<dots> = map (\<lambda>j. map time bs ! Suc j - map time bs ! j) [0..<length bs - 1]"
    by (rule map_cong) auto
  finally show ?thesis
    by (simp add: spacings_loop_eq deltas_nth)
qed

lemma foldl_plus_sum_list:
  fixes xs :: "int list"
  shows "foldl (+) a xs = a + sum_list xs"
  by (induction xs arbitrary: a) simp_all

lemma calculateAvgBlockTime_sorted:
  "calculateAvgBlockTime (sort_key time bs) =
     (let kept = retained (map time bs)
      in if kept = [] then None
         else Some (js_div (of_int (sum_list kept)) (of_nat (length kept))))"
proof -
  have k: "spacings_loop (Suc 0) (sort_key time bs) [] = retained (map time bs)"
    using spacings_loop_deltas [of "sort_key time bs"]
    by (simp add: retained_def map_sort_key)
  have short: "retained (map time bs) = []" if "length bs < 2"
  proof -
    from that have "deltas (sort (map time bs)) = []"
      by (cases "sort (map time bs)" rule: deltas.cases)
        (auto dest: arg_cong [where f = length])
    then show ?thesis by (simp add: retained_def)
  qed
  show ?thesis
    using short by (auto simp add: calculateAvgBlockTime_def k Let_def foldl_plus_sum_list)
qed


lemma calculateBlockStats_eq:
  "calculateBlockStats dateNow blocks windowMinutes =
     \<lparr>meowpow =
        \<lparr>blocks_found =
           length (partition_of ''meowpow'' (unix_now dateNow) windowMinutes
             (filter (\<lambda>b. time b \<noteq> 0) blocks)),
         avg_block_time = round_avg (calculateAvgBlockTime (sort_key time
           (partition_of ''meowpow'' (unix_now dateNow) windowMinutes
             (filter (\<lambda>b. time b \<noteq> 0) blocks))))\<rparr>,
      scrypt =
        \<lparr>blocks_found =
           length (partition_of ''scrypt'' (unix_now dateNow) windowMinutes
             (filter (\<lambda>b. time b \<noteq> 0) blocks)),
         avg_block_time = round_avg (calculateAvgBlockTime (sort_key time
           (partition_of ''scrypt'' (unix_now dateNow) windowMinutes
             (filter (\<lambda>b. time b \<noteq> 0) blocks))))\<rparr>\<rparr>"
proof -
  have f: "filter (\<lambda>b. detectAlgo (version b) = a)
             (filter (\<lambda>b. time b \<noteq> 0 \<and> n - time b \<le> w) blocks)
           = filter (\<lambda>b. n - time b \<le> w \<and> detectAlgo (version b) = a)
               (filter (\<lambda>b. time b \<noteq> 0) blocks)" for a n w
    by (simp add: conj_ac)
  show ?thesis
    by (simp add: calculateBlockStats_def separate_filter partition_of_def Let_def f)
qed









lemma sort_mset_cong:
  fixes xs ys :: "int list"
  assumes "mset xs = mset ys"
  shows "sort xs = sort ys"
  using assms by (metis sorted_list_of_multiset_mset)

text \<open>
  C7.  For every window and clock reading, calculateBlockStats gives the same result
  for every permutation of the sample sequence.
\<close>

theorem calculateBlockStats_permutation:
  assumes "mset blocks = mset blocks'"
  shows "calculateBlockStats dateNow blocks windowMinutes
           = calculateBlockStats dateNow blocks' windowMinutes"
proof -
  let ?ts = "filter (\<lambda>b. time b \<noteq> 0) blocks"
  let ?ts' = "filter (\<lambda>b. time b \<noteq> 0) blocks'"
  have p: "mset (partition_of a n w ?ts) = mset (partition_of a n w ?ts')" for a n w
    using assms by (simp add: partition_of_def)
  have l: "length (partition_of a n w ?ts) = length (partition_of a n w ?ts')" for a n w
    using p [of a n w] by (rule mset_eq_length)
  have "mset (map time (partition_of a n w ?ts))
          = mset (map time (partition_of a n w ?ts'))" for a n w
    using p [of a n w] by (simp only: mset_map)
  then have "sort (map time (partition_of a n w ?ts))
          = sort (map time (partition_of a n w ?ts'))" for a n w
    by (rule sort_mset_cong)
  then have "retained (map time (partition_of a n w ?ts))
          = retained (map time (partition_of a n w ?ts'))" for a n w
    unfolding retained_def by (simp only:)
  then have c: "calculateAvgBlockTime (sort_key time (partition_of a n w ?ts))
          = calculateAvgBlockTime (sort_key time (partition_of a n w ?ts'))" for a n w
    by (simp only: calculateAvgBlockTime_sorted)
  show ?thesis
    by (simp only: calculateBlockStats_eq l c)
qed

theorem calculateBlockStats_permutation_witness:
  "calculateBlockStats 1300000
      [\<lparr>height = 1, time = 1000, version = 0x30090042\<rparr>,
       \<lparr>height = 2, time = 1100, version = 0x30090142\<rparr>,
       \<lparr>height = 3, time = 1300, version = 0x30090042\<rparr>] 60
   = calculateBlockStats 1300000
      [\<lparr>height = 3, time = 1300, version = 0x30090042\<rparr>,
       \<lparr>height = 1, time = 1000, version = 0x30090042\<rparr>,
       \<lparr>height = 2, time = 1100, version = 0x30090142\<rparr>] 60"
  by (rule calculateBlockStats_permutation) simp

text \<open>
  C8, as the code has it.  calculateBlockStats takes the samples and the window only and
  reads the wall clock itself, once: \<open>now\<close> is \<^verbatim>\<open>Math.floor(Date.now() / 1000)\<close>.
  Its result is a function of the samples, the window and that reading: two runs on
  equal samples and window whose clock readings give the same second return equal
  results.
\<close>

theorem calculateBlockStats_clock:
  assumes "unix_now dateNow = unix_now dateNow'"
  shows "calculateBlockStats dateNow blocks windowMinutes
           = calculateBlockStats dateNow' blocks windowMinutes"
  using assms by (simp add: calculateBlockStats_def)

theorem calculateBlockStats_clock_witness:
  "unix_now 1300000 = unix_now 1300999
   \<and> calculateBlockStats 1300000 [\<lparr>height = 1, time = 1000, version = 0x30090000\<rparr>] 60
     = calculateBlockStats 1300999 [\<lparr>height = 1, time = 1000, version = 0x30090000\<rparr>] 60"
proof -
  have s: "unix_now 1300000 = unix_now 1300999" by code_simp
  from s calculateBlockStats_clock [OF s] show ?thesis by blast
qed

text \<open>
  C8 as stated fails: the result is not a function of the samples and the window.  The
  same one-sample sequence and the same window of 60 minutes give one MeowPow block when
  the clock reads 1300 s and none when it reads 10000000 s.
\<close>

theorem calculateBlockStats_reads_clock:
  "blocks_found (meowpow (calculateBlockStats 1300000
      [\<lparr>height = 1, time = 1000, version = 0x30090000\<rparr>] 60)) = 1
   \<and> blocks_found (meowpow (calculateBlockStats 10000000000
      [\<lparr>height = 1, time = 1000, version = 0x30090000\<rparr>] 60)) = 0
   \<and> calculateBlockStats 1300000 [\<lparr>height = 1, time = 1000, version = 0x30090000\<rparr>] 60
     \<noteq> calculateBlockStats 10000000000
         [\<lparr>height = 1, time = 1000, version = 0x30090000\<rparr>] 60"
proof -
  let ?bs = "[\<lparr>height = 1, time = 1000, version = 0x30090000\<rparr>]"
  have n1: "unix_now 1300000 = 1300" by code_simp
  have n2: "unix_now 10000000000 = 10000000" by code_simp
  have a: "blocks_found (meowpow (calculateBlockStats 1300000 ?bs 60)) = 1"
    by (simp add: calculateBlockStats_eq n1 partition_of_def detectAlgo_word)
  have b: "blocks_found (meowpow (calculateBlockStats 10000000000 ?bs 60)) = 0"
    by (simp add: calculateBlockStats_eq n2 partition_of_def detectAlgo_word)
  from a b have "calculateBlockStats 1300000 ?bs 60 \<noteq> calculateBlockStats 10000000000 ?bs 60"
    by auto
  with a b show ?thesis by blast
qed

section \<open>Properties of cachedFetch\<close>

lemma cachedFetch_hit:
  assumes "isCacheValid TTL t C" "data C key \<noteq> JNull" "data C key \<noteq> JUndefined"
  shows "cachedFetch TTL now t key fn (C, w) = (Inr (data C key), C, w)"
  using assms by (simp add: cachedFetch_def)

lemma cachedFetch_miss_success:
  assumes "\<not> isCacheValid TTL t C \<or> data C key = JNull \<or> data C key = JUndefined"
    and "fn w = (Inr v, w')"
  shows "cachedFetch TTL now t key fn (C, w)
           = (Inr v, C\<lparr>data := (data C)(key := v), updated := now\<rparr>, w')"
  using assms by (auto simp add: cachedFetch_def)

lemma cachedFetch_failure:
  assumes "fn w = (Inl err, w')"
  shows "cachedFetch TTL now t key fn (C, w)
           = (if data C key \<noteq> JNull \<and> data C key \<noteq> JUndefined
              then (Inr (data C key), C,
                    if isCacheValid TTL t C then w else w')
              else (Inl err, C, w'))"
  using assms by (simp add: cachedFetch_def)

text \<open>
  C1.  When cachedFetch is called while the cache is not fresh or holds no value for
  the key, and the producer throws: if a value is cached for the key (whatever its
  age) that value is returned, not an error; if none is cached, the producer's error
  is thrown on.
\<close>

theorem cachedFetch_failing_producer:
  assumes "\<not> isCacheValid TTL t C \<or> data C key = JNull \<or> data C key = JUndefined"
    and "fn w = (Inl err, w')"
  shows "fst (cachedFetch TTL now t key fn (C, w))
           = (if data C key \<noteq> JNull \<and> data C key \<noteq> JUndefined
              then Inr (data C key) else Inl err)"
  using assms(2) by (simp add: cachedFetch_failure)

theorem cachedFetch_failing_producer_witness:
  "fst (cachedFetch 60000 1000000 1000001 (js ''total_supply'')
          (\<lambda>w :: unit. (Inl ''node down'', w))
          (\<lparr>data = (data initial_Cache)(js ''total_supply'' := JValue (42 :: int)),
            updated = 5\<rparr>, ()))
     = Inr (JValue 42)
   \<and> fst (cachedFetch 60000 1000000 1000001 (js ''total_supply'')
          (\<lambda>w :: unit. (Inl ''node down'', w))
          (initial_Cache :: int Cache, ()))
     = Inl ''node down''"
proof -
  let ?fn = "\<lambda>w :: unit. (Inl ''node down'' :: string + int jsvalue, w)"
  let ?C = "\<lparr>data = (data initial_Cache)(js ''total_supply'' := JValue (42 :: int)),
            updated = 5\<rparr>"
  have stale: "\<not> isCacheValid 60000 1000001 ?C \<or> data ?C (js ''total_supply'') = JNull
      \<or> data ?C (js ''total_supply'') = JUndefined"
    by (simp add: isCacheValid_def)
  have absent: "\<not> isCacheValid 60000 1000001 (initial_Cache :: int Cache)
      \<or> data (initial_Cache :: int Cache) (js ''total_supply'') = JNull
      \<or> data (initial_Cache :: int Cache) (js ''total_supply'') = JUndefined"
    by (simp add: isCacheValid_def initial_Cache_def)
  have k: "data (initial_Cache :: int Cache) (js ''total_supply'') = JNull"
    by (simp add: initial_Cache_def cache_keys_def)
  show ?thesis
    using stale absent k
      cachedFetch_failing_producer [where fn = ?fn and w = "()" and err = "''node down''"
        and w' = "()" and C = ?C and TTL = 60000 and t = 1000001 and now = 1000000
        and key = "js ''total_supply''"]
      cachedFetch_failing_producer [where fn = ?fn and w = "()" and err = "''node down''"
        and w' = "()" and C = "initial_Cache :: int Cache" and TTL = 60000 and t = 1000001
        and now = 1000000 and key = "js ''total_supply''"]
    by simp
qed

text \<open>
  C10.  When the producer throws, cachedFetch leaves the cache as it was, every key's
  value and the time stamp, whether it returns the cached value or throws the error on.
\<close>

theorem cachedFetch_failure_keeps_cache:
  assumes "fn w = (Inl err, w')"
  shows "fst (snd (cachedFetch TTL now t key fn (C, w))) = C
       \<and> (fst (cachedFetch TTL now t key fn (C, w)) = Inr (data C key)
            \<or> fst (cachedFetch TTL now t key fn (C, w)) = Inl err)"
  using assms by (simp add: cachedFetch_failure)

theorem cachedFetch_failure_keeps_cache_witness:
  "cachedFetch 60000 1000000 1000001 (js ''mining_info'')
      (\<lambda>n :: nat. (Inl ''node down'', Suc n))
      (\<lparr>data = (\<lambda>k. JValue (7 :: int)), updated = 5\<rparr>, 0)
     = (Inr (JValue 7), \<lparr>data = (\<lambda>k. JValue 7), updated = 5\<rparr>, 1)
   \<and> cachedFetch 60000 1000000 1000001 (js ''mining_info'')
      (\<lambda>n :: nat. (Inl ''node down'', Suc n))
      (initial_Cache :: int Cache, 0)
     = (Inl ''node down'', initial_Cache, 1)"
proof -
  let ?fn = "\<lambda>n :: nat. (Inl ''node down'' :: string + int jsvalue, Suc n)"
  let ?C = "\<lparr>data = (\<lambda>k. JValue (7 :: int)), updated = 5\<rparr>"
  let ?key = "js ''mining_info''"
  have stale: "\<not> isCacheValid 60000 1000001 ?C"
    by (simp add: isCacheValid_def)
  have empty: "data (initial_Cache :: int Cache) ?key = JNull"
    by (simp add: initial_Cache_def cache_keys_def)
  have w1: "snd (snd (cachedFetch 60000 1000000 1000001 ?key ?fn (?C, 0))) = 1"
    using stale by (simp add: cachedFetch_def)
  have w2: "snd (snd (cachedFetch 60000 1000000 1000001 ?key ?fn
              (initial_Cache :: int Cache, 0))) = 1"
    using empty by (simp add: cachedFetch_def)
  have r1: "fst (snd (cachedFetch 60000 1000000 1000001 ?key ?fn (?C, 0))) = ?C
      \<and> (fst (cachedFetch 60000 1000000 1000001 ?key ?fn (?C, 0)) = Inr (data ?C ?key)
           \<or> fst (cachedFetch 60000 1000000 1000001 ?key ?fn (?C, 0)) = Inl ''node down'')"
    by (rule cachedFetch_failure_keeps_cache [where w' = 1]) simp
  have r2: "fst (snd (cachedFetch 60000 1000000 1000001 ?key ?fn
                (initial_Cache :: int Cache, 0))) = initial_Cache
      \<and> (fst (cachedFetch 60000 1000000 1000001 ?key ?fn (initial_Cache :: int Cache, 0))
             = Inr (data initial_Cache ?key)
           \<or> fst (cachedFetch 60000 1000000 1000001 ?key ?fn (initial_Cache :: int Cache, 0))
             = Inl ''node down'')"
    by (rule cachedFetch_failure_keeps_cache [where w' = 1]) simp
  have v1: "fst (cachedFetch 60000 1000000 1000001 ?key ?fn (?C, 0)) = Inr (JValue 7)"
    using stale by (simp add: cachedFetch_def)
  have v2: "fst (cachedFetch 60000 1000000 1000001 ?key ?fn (initial_Cache :: int Cache, 0))
              = Inl ''node down''"
    using empty by (simp add: cachedFetch_def)
  show ?thesis
    using r1 r2 v1 v2 w1 w2 by (simp add: prod_eq_iff)
qed

text \<open>
  C3.  The cache has one time stamp for all keys.  isCacheValid holds exactly when the
  stamp is not zero and the time since the stamp is below the TTL.  A fetch of a key
  \<open>K'\<close> that runs its producer, when the producer succeeds, stores the value and sets
  the stamp.  After it, while the stamp is young, a fetch of another key \<open>K\<close> returns
  the value cached for \<open>K\<close> before, without running its producer, although the
  freshness check fails at that same time on the cache as it was before the write to
  \<open>K'\<close>, where the fetch of \<open>K\<close> runs the producer.
\<close>

theorem shared_time_stamp:
  assumes "K \<noteq> K'"
    and "data C K \<noteq> JNull" "data C K \<noteq> JUndefined"
    and "\<not> isCacheValid TTL t C \<or> data C K' = JNull \<or> data C K' = JUndefined"
    and "\<not> isCacheValid TTL t2 C"
    and "fn' w = (Inr v', w')"
    and "now \<noteq> 0" "t2 - now < TTL"
    and "C' = C\<lparr>data := (data C)(K' := v'), updated := now\<rparr>"
  shows "(isCacheValid ttl s (D :: 'v Cache) \<longleftrightarrow> updated D \<noteq> 0 \<and> s - updated D < ttl)
       \<and> cachedFetch TTL now t K' fn' (C, w) = (Inr v', C', w')
       \<and> isCacheValid TTL t2 C'
       \<and> cachedFetch TTL now2 t2 K fn (C', w') = (Inr (data C K), C', w')
       \<and> cachedFetch TTL now2 t2 K fn (C, w')
           = (case fn w' of
                (Inr v, w'') \<Rightarrow> (Inr v, C\<lparr>data := (data C)(K := v), updated := now2\<rparr>, w'')
              | (Inl err, w'') \<Rightarrow> (Inr (data C K), C, w''))"
proof -
  have a: "isCacheValid ttl s D \<longleftrightarrow> updated D \<noteq> 0 \<and> s - updated D < ttl"
    by (simp add: isCacheValid_def)
  have b: "cachedFetch TTL now t K' fn' (C, w) = (Inr v', C', w')"
    unfolding assms(9) using assms(4,6) by (rule cachedFetch_miss_success)
  have c: "isCacheValid TTL t2 C'"
    using assms(7,8,9) by (simp add: isCacheValid_def)
  have "data C' K = data C K"
    using assms(1,9) by simp
  then have d: "cachedFetch TTL now2 t2 K fn (C', w') = (Inr (data C K), C', w')"
    using c assms(2,3) cachedFetch_hit [of TTL t2 C' K now2 fn w'] by simp
  have e: "cachedFetch TTL now2 t2 K fn (C, w')
           = (case fn w' of
                (Inr v, w'') \<Rightarrow> (Inr v, C\<lparr>data := (data C)(K := v), updated := now2\<rparr>, w'')
              | (Inl err, w'') \<Rightarrow> (Inr (data C K), C, w''))"
    using assms(2,3,5) by (simp add: cachedFetch_def split: prod.splits sum.splits)
  from a b c d e show ?thesis by blast
qed

theorem shared_time_stamp_witness:
  "cachedFetch 60000 2000000 2000000 (js ''block_reward'')
     (\<lambda>n :: nat. (Inr (JValue 9) :: string + int jsvalue, Suc n))
     (\<lparr>data = (data initial_Cache)(js ''total_supply'' := JValue (1 :: int)),
       updated = 1000\<rparr>, 0)
     = (Inr (JValue 9),
        \<lparr>data = (data initial_Cache)(js ''total_supply'' := JValue 1,
                                       js ''block_reward'' := JValue 9),
          updated = 2000000\<rparr>, 1)
   \<and> cachedFetch 60000 2000500 2000500 (js ''total_supply'')
       (\<lambda>n :: nat. (Inr (JValue 2) :: string + int jsvalue, Suc n))
       (\<lparr>data = (data initial_Cache)(js ''total_supply'' := JValue 1,
                                      js ''block_reward'' := JValue 9),
         updated = 2000000\<rparr>, 1)
     = (Inr (JValue 1),
        \<lparr>data = (data initial_Cache)(js ''total_supply'' := JValue 1,
                                       js ''block_reward'' := JValue 9),
          updated = 2000000\<rparr>, 1)
   \<and> cachedFetch 60000 2000500 2000500 (js ''total_supply'')
       (\<lambda>n :: nat. (Inr (JValue 2) :: string + int jsvalue, Suc n))
       (\<lparr>data = (data initial_Cache)(js ''total_supply'' := JValue 1), updated = 1000\<rparr>, 1)
     = (Inr (JValue 2),
        \<lparr>data = (data initial_Cache)(js ''total_supply'' := JValue 2),
          updated = 2000500\<rparr>, 2)"
proof -
  let ?C = "\<lparr>data = (data initial_Cache)(js ''total_supply'' := JValue (1 :: int)),
            updated = 1000\<rparr>"
  let ?fn' = "\<lambda>n :: nat. (Inr (JValue 9) :: string + int jsvalue, Suc n)"
  let ?fn = "\<lambda>n :: nat. (Inr (JValue 2) :: string + int jsvalue, Suc n)"
  have 1: "js ''total_supply'' \<noteq> js ''block_reward''"
    by (simp add: js_def)
  have 2: "data ?C (js ''total_supply'') \<noteq> JNull" "data ?C (js ''total_supply'') \<noteq> JUndefined"
    by simp_all
  have 3: "\<not> isCacheValid 60000 2000000 ?C" "\<not> isCacheValid 60000 2000500 ?C"
    by (simp_all add: isCacheValid_def)
  have 5: "(2000000 :: int) \<noteq> 0" "(2000500 :: int) - 2000000 < 60000" by simp_all
  show ?thesis
    using 1 2 3 5
      shared_time_stamp [where K = "js ''total_supply''" and K' = "js ''block_reward''"
        and C = ?C and TTL = 60000 and t = 2000000 and ?t2.0 = 2000500 and fn' = ?fn'
        and w = 0 and v' = "JValue 9" and w' = 1 and now = 2000000 and ?now2.0 = 2000500
        and fn = ?fn and C' = "?C\<lparr>data := (data ?C)(js ''block_reward'' := JValue 9),
                                 updated := 2000000\<rparr>"
        and ttl = 60000 and s = 2000500 and D = ?C]
    by simp
qed

section \<open>Properties of parseCommand\<close>

lemma tokens_from_ws_only:
  assumes "\<forall>c \<in> set w. is_ws c"
  shows "tokens_from cur w = (if cur = [] then [] else [cur])"
  using assms by (induction w arbitrary: cur) auto

lemma tokens_from_append_ws:
  assumes "\<forall>c \<in> set w. is_ws c"
  shows "tokens_from cur (s @ w) = tokens_from cur s"
  using assms by (induction s arbitrary: cur) (auto simp add: tokens_from_ws_only)

lemma tokens_from_skip_ws:
  "tokens_from [] (dropWhile is_ws s) = tokens_from [] s"
  by (induction s) auto

lemma tokens_from_word:
  "tokens_from cur s =
     (if cur @ takeWhile (\<lambda>c. \<not> is_ws c) s = [] then []
      else [cur @ takeWhile (\<lambda>c. \<not> is_ws c) s])
     @ tokens_from [] (dropWhile (\<lambda>c. \<not> is_ws c) s)"
proof (induction s arbitrary: cur)
  case Nil
  then show ?case by simp
next
  case (Cons c s)
  show ?case
  proof (cases "is_ws c")
    case True
    then show ?thesis by simp
  next
    case False
    then show ?thesis
      using Cons [of "cur @ [c]"] by simp
  qed
qed

lemma trim_decompose:
  "\<exists>w. dropWhile is_ws s = trim s @ w \<and> (\<forall>c \<in> set w. is_ws c)"
proof -
  let ?u = "dropWhile is_ws s"
  have "rev (takeWhile is_ws (rev ?u) @ dropWhile is_ws (rev ?u)) = ?u"
    by simp
  then have "trim s @ rev (takeWhile is_ws (rev ?u)) = ?u"
    by (simp only: rev_append trim_def)
  moreover have "\<forall>c \<in> set (rev (takeWhile is_ws (rev ?u))). is_ws c"
    by (auto dest: set_takeWhileD)
  ultimately show ?thesis by metis
qed

lemma ws_tokens_trim: "ws_tokens (trim s) = ws_tokens s"
proof -
  obtain w where w: "dropWhile is_ws s = trim s @ w" "\<forall>c \<in> set w. is_ws c"
    using trim_decompose by blast
  have "ws_tokens s = tokens_from [] (dropWhile is_ws s)"
    by (simp add: ws_tokens_def tokens_from_skip_ws)
  also have "\<dots> = tokens_from [] (trim s)"
    unfolding w(1) using w(2) by (rule tokens_from_append_ws)
  finally show ?thesis by (simp add: ws_tokens_def)
qed

lemma trim_ends:
  assumes "trim s \<noteq> []"
  shows "\<not> is_ws (hd (trim s))" and "\<not> is_ws (last (trim s))"
proof -
  let ?u = "dropWhile is_ws s"
  let ?v = "dropWhile is_ws (rev ?u)"
  from assms have v: "?v \<noteq> []" by (simp add: trim_def)
  have u: "?u \<noteq> []"
  proof
    assume "?u = []"
    then have "?v = []" by (simp only: rev.simps dropWhile.simps)
    with v show False ..
  qed
  have "last (trim s) = hd ?v"
    using v by (simp add: trim_def last_rev)
  moreover have "\<not> is_ws (hd ?v)"
    using v hd_dropWhile [of is_ws "rev ?u"] by simp
  ultimately show "\<not> is_ws (last (trim s))" by simp
  have "last (takeWhile is_ws (rev ?u) @ ?v) = last ?v"
    using v by (rule last_appendR)
  then have "last (rev ?u) = last ?v" by simp
  then have "hd (trim s) = hd ?u"
    using u v by (simp add: trim_def hd_rev last_rev)
  moreover have "\<not> is_ws (hd ?u)"
    using u hd_dropWhile [of is_ws s] by simp
  ultimately show "\<not> is_ws (hd (trim s))" by simp
qed

lemma split_ws_tokens:
  assumes "s \<noteq> []" "\<not> is_ws (hd s)" "\<not> is_ws (last s)"
  shows "split_ws s = tokens_from [] s"
  using assms
proof (induction s rule: split_ws.induct)
  case (1 s)
  let ?tok = "takeWhile (\<lambda>c. \<not> is_ws c) s"
  let ?rest = "dropWhile (\<lambda>c. \<not> is_ws c) s"
  have tokne: "?tok \<noteq> []"
    using "1.prems"(1,2) by (cases s) simp_all
  have tk: "tokens_from [] s = ?tok # tokens_from [] ?rest"
    using tokens_from_word [of "[]" s] tokne by simp
  show ?case
  proof (cases "?rest = []")
    case True
    have A: "tokens_from [] s = [?tok]"
      unfolding tk True by (simp only: tokens_from.simps refl if_True)
    have B: "split_ws s = [?tok]"
      by (subst split_ws.simps) (simp only: True if_True refl)
    show ?thesis
      unfolding A B by (rule refl)
  next
    case False
    let ?r = "dropWhile is_ws ?rest"
    have "last (?tok @ ?rest) = last ?rest"
      using False by (rule last_appendR)
    then have lr: "last ?rest = last s" by simp
    have rne: "?r \<noteq> []"
    proof
      assume "?r = []"
      then have all: "\<forall>c \<in> set ?rest. is_ws c"
        by (rule dropWhile_eq_Nil_conv [THEN iffD1])
      have mem: "last ?rest \<in> set ?rest"
        using False by (rule last_in_set)
      from all mem have "is_ws (last ?rest)" by (rule bspec)
      then have "is_ws (last s)" by (simp only: lr)
      with "1.prems"(3) show False by blast
    qed
    have "last (takeWhile is_ws ?rest @ ?r) = last ?r"
      using rne by (rule last_appendR)
    then have "last ?rest = last ?r" by simp
    then have l: "\<not> is_ws (last ?r)"
      using lr "1.prems"(3) by simp
    have h: "\<not> is_ws (hd ?r)"
      using rne hd_dropWhile [of is_ws ?rest] by simp
    have ih: "split_ws ?r = tokens_from [] ?r"
      using False rne h l by (rule "1.IH")
    have "split_ws s = ?tok # split_ws ?r"
      by (subst split_ws.simps) (simp only: False if_False)
    also have "\<dots> = ?tok # tokens_from [] ?rest"
      by (simp only: ih tokens_from_skip_ws)
    finally show ?thesis
      by (simp only: tk)
  qed
qed

lemma split_ws_trim:
  "split_ws (trim s) = (if ws_tokens s = [] then [[]] else ws_tokens s)"
proof (cases "trim s = []")
  case True
  then have "ws_tokens s = []"
    using ws_tokens_trim [of s] by (simp add: ws_tokens_def)
  then show ?thesis
    using True by (subst split_ws.simps) simp
next
  case False
  then have eq: "split_ws (trim s) = tokens_from [] (trim s)"
    using trim_ends [OF False] by (intro split_ws_tokens)
  have "tokens_from [] (trim s) \<noteq> []"
    using False trim_ends(1) [OF False] tokens_from_word [of "[]" "trim s"]
    by (cases "trim s") auto
  then show ?thesis
    using eq ws_tokens_trim [of s] by (simp add: ws_tokens_def)
qed

lemma tokens_from_clean:
  assumes "\<forall>c \<in> set cur. \<not> is_ws c" "p \<in> set (tokens_from cur s)"
  shows "p \<noteq> [] \<and> (\<forall>c \<in> set p. \<not> is_ws c)"
  using assms
proof (induction s arbitrary: cur)
  case Nil
  then show ?case by (auto split: if_splits)
next
  case (Cons c s)
  show ?case
  proof (cases "is_ws c")
    case True
    with Cons.prems have "p = cur \<and> cur \<noteq> [] \<or> p \<in> set (tokens_from [] s)"
      by (auto split: if_splits)
    then show ?thesis
      using Cons.IH [of "[]"] Cons.prems(1) by auto
  next
    case False
    with Cons.prems have "p \<in> set (tokens_from (cur @ [c]) s)" by simp
    moreover have "\<forall>d \<in> set (cur @ [c]). \<not> is_ws d"
      using False Cons.prems(1) by simp
    ultimately show ?thesis by (rule Cons.IH [rotated])
  qed
qed

text \<open>The conversion on some strings.\<close>

lemma Number_examples:
  "Number (js ''0'') = Finite 0"
  "Number (js ''-1'') = Finite (- 1)"
  "Number (js ''1e3'') = Finite 1000"
  "Number (js ''0x1F'') = Finite 31"
  "Number (js ''.5'') = Finite (1 / 2)"
  "Number (js ''Infinity'') = PosInfinity"
  "Number (js ''12abc'') = NaN"
  "Number (js ''1e'') = NaN"
  "Number (js ''0x'') = NaN"
  "Number (js ''abc'') = NaN"
  "Number (js '''') = Finite 0"
proof -
  have f: "fl64 1 = 1" "fl64 1000 = 1000" "fl64 31 = 31" "fl64 (1 / 2) = 1 / 2"
    by code_simp+
  note defs = Number_def trim_def js_def is_ws_def non_decimal_def str_decimal_def
    unsigned_literal_def unsigned_decimal_def digit_value_def exponent_part_def to_number_def
    digits_value_def is_digits_def radix_of_def negate_def fl64_def [of 0] Let_def
  show "Number (js ''0'') = Finite 0" by (simp add: defs)
  show "Number (js ''-1'') = Finite (- 1)" by (simp add: defs f)
  show "Number (js ''1e3'') = Finite 1000" by (simp add: defs f)
  show "Number (js ''0x1F'') = Finite 31" by (simp add: defs f)
  show "Number (js ''.5'') = Finite (1 / 2)" by (simp add: defs f power_int_minus)
  show "Number (js ''Infinity'') = PosInfinity" by (simp add: defs)
  show "Number (js ''12abc'') = NaN" by (simp add: defs)
  show "Number (js ''1e'') = NaN" by (simp add: defs)
  show "Number (js ''0x'') = NaN" by (simp add: defs)
  show "Number (js ''abc'') = NaN" by (simp add: defs)
  show "Number (js '''') = Finite 0" by (simp add: defs)
qed

text \<open>
  C9.  For every command string, parseCommand splits it on white space: the method is
  the first word and the parameters come from the remaining words, in order (a blank
  command has no word, and its method is the empty string).  No word is empty or holds
  white space.  A parameter is the number \<^verbatim>\<open>Number(p)\<close> exactly when that is not NaN,
  that is when the whole word is a numeric literal, and the word itself otherwise.
  "getdifficulty 0" gives the method "getdifficulty" and the parameters [0].
\<close>

theorem parseCommand_tokens:
  "parseCommand cmd =
     \<lparr>method = Some (case ws_tokens cmd of [] \<Rightarrow> [] | m # _ \<Rightarrow> m),
      params = map coerce (drop 1 (ws_tokens cmd))\<rparr>
   \<and> (\<forall>p \<in> set (ws_tokens cmd). p \<noteq> [] \<and> (\<forall>c \<in> set p. \<not> is_ws c))
   \<and> parseCommand (js ''getdifficulty 0'') =
       \<lparr>method = Some (js ''getdifficulty''), params = [PNumber (Finite 0)]\<rparr>"
proof -
  have c: "(\<lambda>p. let num = Number p in if isNaN num then PString p else PNumber num) = coerce"
    by (rule ext) (simp add: coerce_def isNaN_def Let_def)
  have a: "parseCommand cmd =
     \<lparr>method = Some (case ws_tokens cmd of [] \<Rightarrow> [] | m # _ \<Rightarrow> m),
      params = map coerce (drop 1 (ws_tokens cmd))\<rparr>" for cmd
    unfolding parseCommand_def c
    unfolding split_ws_trim Let_def
    by (cases "ws_tokens cmd") simp_all
  have b: "\<forall>p \<in> set (ws_tokens cmd). p \<noteq> [] \<and> (\<forall>c \<in> set p. \<not> is_ws c)"
    using tokens_from_clean [of "[]" _ cmd] by (simp add: ws_tokens_def)
  have t: "ws_tokens (js ''getdifficulty 0'') = [js ''getdifficulty'', js ''0'']"
    by (simp add: ws_tokens_def js_def is_ws_def)
  have n: "coerce (js ''0'') = PNumber (Finite 0)"
    by (simp add: coerce_def Number_def trim_def js_def is_ws_def non_decimal_def
        str_decimal_def unsigned_literal_def unsigned_decimal_def digit_value_def
        exponent_part_def to_number_def digits_value_def fl64_def Let_def)
  have d: "parseCommand (js ''getdifficulty 0'') =
       \<lparr>method = Some (js ''getdifficulty''), params = [PNumber (Finite 0)]\<rparr>"
    unfolding a [of "js ''getdifficulty 0''"] t by (simp add: n)
  from a b d show ?thesis by blast
qed

theorem parseCommand_tokens_witness:
  "parseCommand (js ''getblock abc 1'') =
     \<lparr>method = Some (js ''getblock''),
      params = [PString (js ''abc''), PNumber (Finite 1)]\<rparr>"
proof -
  have t: "ws_tokens (js ''getblock abc 1'') = [js ''getblock'', js ''abc'', js ''1'']"
    by (simp add: ws_tokens_def js_def is_ws_def)
  have f1: "fl64 1 = 1" by code_simp
  have n: "coerce (js ''abc'') = PString (js ''abc'')"
    "coerce (js ''1'') = PNumber (Finite 1)"
    by (simp_all add: coerce_def Number_def trim_def js_def is_ws_def non_decimal_def
        str_decimal_def unsigned_literal_def unsigned_decimal_def digit_value_def
        exponent_part_def to_number_def digits_value_def radix_of_def Let_def f1)
  show ?thesis
    using parseCommand_tokens [of "js ''getblock abc 1''"]
    unfolding t by (simp add: n)
qed

end
